theory Spec2Isabelle
  imports Complex_Main
begin

section \<open>PoPPy: point processes in Python (spacepy/poppy.py)\<close>

text \<open>
  A shallow embedding of \<^verbatim>\<open>src/spacepy/poppy.py\<close>: the class \<^verbatim>\<open>PPro\<close> with its methods
  \<^verbatim>\<open>swap\<close> and \<^verbatim>\<open>assoc\<close>, and the function \<^verbatim>\<open>boots_ci\<close>.

  Time stamps, lags, the window half-width and the cells of numpy's float arrays are
  rational numbers: sums, differences and comparisons are exact, as they are for
  \<^verbatim>\<open>datetime\<close>/\<^verbatim>\<open>timedelta\<close> values and for floats holding small integers.
  An attribute that \<^verbatim>\<open>__init__\<close> does not create (\<^verbatim>\<open>n_assoc\<close>, \<^verbatim>\<open>assoc_total\<close>,
  \<^verbatim>\<open>asympt_assoc\<close>, \<^verbatim>\<open>ci\<close>) is an option, \<open>None\<close> while the attribute does not exist.
\<close>

subsection \<open>Data model\<close>

text \<open>
  The ways the code stops without a result.
  \<^item> \<open>ConfigurationError\<close>: \<^verbatim>\<open>assoc\<close> returns the string
    \<^verbatim>\<open>'assoc error: attributes lags and winhalf must be populated'\<close> (line 138).
  \<^item> \<open>TypeError\<close>: the exception that Python raises on line 298 of \<^verbatim>\<open>boots_ci\<close>,
    \<^verbatim>\<open>ci_low, ci_high = np.nan\<close>, which unpacks one float into two names; line 300
    is not reached. The file defines no exception of its own and has no \<^verbatim>\<open>raise\<close>.
  \<^item> \<open>IndexError\<close>, \<open>KeyError\<close>: an array index out of range, a dictionary key
    that is absent.
\<close>

datatype error = ConfigurationError | TypeError | IndexError | KeyError

text \<open>A numpy float that may be NaN (the mean of an empty array).\<close>

datatype npfloat = NaN | Fin rat

text \<open>A two-dimensional numpy array: its shape and its rows.\<close>

record ndarray =
  nrows :: nat
  ncols :: nat
  cell :: "rat list list"

record PPro =
  process1 :: "rat list"
  process2 :: "rat list"
  lags :: "rat list option"
  winhalf :: "rat option"
  n_assoc :: "ndarray option"
  assoc_total :: "rat list option"
  asympt_assoc :: "npfloat option"
  ci :: "(rat list \<times> rat list) option"

text \<open>\<^verbatim>\<open>PPro.__init__\<close> (lines 79-84).\<close>

definition PPro_init :: "rat list \<Rightarrow> rat list \<Rightarrow> rat list option \<Rightarrow> rat option \<Rightarrow> PPro" where
  "PPro_init p1 p2 u h =
     \<lparr>process1 = p1, process2 = p2, lags = u, winhalf = h,
      n_assoc = None, assoc_total = None, asympt_assoc = None, ci = None\<rparr>"

subsection \<open>swap\<close>

text \<open>\<^verbatim>\<open>PPro.swap\<close> (lines 111-118).\<close>

definition swap :: "PPro \<Rightarrow> PPro" where
  "swap self =
     (let temp2 = process1 self;
          temp1 = process2 self;
          self = self\<lparr>process1 := temp1\<rparr>;
          self = self\<lparr>process2 := temp2\<rparr>
      in self)"

subsection \<open>numpy arrays\<close>

text \<open>\<^verbatim>\<open>np.zeros((r, c))\<close>.\<close>

definition np_zeros :: "nat \<times> nat \<Rightarrow> ndarray" where
  "np_zeros shp =
     \<lparr>nrows = fst shp, ncols = snd shp, cell = replicate (fst shp) (replicate (snd shp) 0)\<rparr>"

text \<open>\<^verbatim>\<open>a[i, j] = v\<close>: numpy raises IndexError outside the shape.\<close>

definition setitem :: "ndarray \<Rightarrow> nat \<times> nat \<Rightarrow> rat \<Rightarrow> error + ndarray" where
  "setitem a ij v =
     (case ij of (i, j) \<Rightarrow>
        if i < nrows a \<and> j < ncols a
        then Inr (a\<lparr>cell := (cell a)[i := (cell a ! i)[j := v]]\<rparr>)
        else Inl IndexError)"

text \<open>\<^verbatim>\<open>np.sum(a, axis=0)\<close>: one sum per column, also when there is no row.\<close>

definition np_sum_axis0 :: "ndarray \<Rightarrow> rat list" where
  "np_sum_axis0 a = map (\<lambda>j. sum_list (map (\<lambda>row. row ! j) (cell a))) [0..<ncols a]"

text \<open>
  \<^verbatim>\<open>np.mean\<close> of a one-dimensional array: NaN for an empty array (numpy warns and does
  not raise) and NaN as soon as one element is NaN.
\<close>

primrec finite_vals :: "npfloat list \<Rightarrow> rat list option" where
  "finite_vals [] = Some []"
| "finite_vals (x # xs) =
     (case x of NaN \<Rightarrow> None | Fin r \<Rightarrow> map_option (Cons r) (finite_vals xs))"

definition np_mean :: "npfloat list \<Rightarrow> npfloat" where
  "np_mean xs =
     (case finite_vals xs of
        None \<Rightarrow> NaN
      | Some rs \<Rightarrow> if rs = [] then NaN else Fin (sum_list rs / of_nat (length rs)))"

text \<open>
  \<^verbatim>\<open>a[pul == k]\<close>: the elements of \<open>a\<close> at the positions where \<open>pul\<close> is \<open>k\<close>. The two
  arrays have the same length wherever the code uses it.
\<close>

definition mask_select :: "rat list \<Rightarrow> nat list \<Rightarrow> nat \<Rightarrow> rat list" where
  "mask_select a pul k = map fst (filter (\<lambda>vr. snd vr = k) (zip a pul))"

text \<open>
  \<^verbatim>\<open>np.searchsorted(a, v)\<close> (side left) on a sorted \<open>a\<close>: the first position whose
  element is not below \<open>v\<close>.
\<close>

definition searchsorted :: "rat list \<Rightarrow> rat \<Rightarrow> nat" where
  "searchsorted a v = length (takeWhile (\<lambda>e. e < v) a)"

subsection \<open>Collaborators that are not in the source file\<close>

text \<open>
  Modelled from the spec: \<^verbatim>\<open>spacepy.toolbox.tOverlap\<close>, of which \<^verbatim>\<open>assoc\<close> uses the
  second result only. Spec, section 6: given a closed interval and a sequence of time
  stamps, the indices of the time stamps inside the interval, closed on both ends, and
  an explicit "no match" (Python's \<^verbatim>\<open>None\<close>) when there is none.
\<close>

definition tOverlap :: "rat \<times> rat \<Rightarrow> rat list \<Rightarrow> nat list option" where
  "tOverlap iv series =
     (let inds = filter (\<lambda>k. fst iv \<le> series ! k \<and> series ! k \<le> snd iv) [0..<length series]
      in if inds = [] then None else Some inds)"

text \<open>
  Modelled from the spec: \<^verbatim>\<open>matplotlib.mlab.prctile\<close>. Spec, section 4.2: the
  linear-interpolated percentile, rank = p/100 * (n - 1), interpolated between the values
  at the floor and the ceiling of the rank, in the sorted values. There is no value
  where a rank is outside the array (an empty array).
\<close>

definition interpolate :: "rat list \<Rightarrow> rat \<Rightarrow> rat" where
  "interpolate values rank =
     values ! nat \<lfloor>rank\<rfloor> +
       (values ! nat \<lceil>rank\<rceil> - values ! nat \<lfloor>rank\<rfloor>) * (rank - of_int \<lfloor>rank\<rfloor>)"

definition percentile :: "rat list \<Rightarrow> rat \<Rightarrow> rat option" where
  "percentile x p =
     (let values = sort x;
          rank = p / 100 * (of_nat (length values) - 1)
      in if 0 \<le> \<lfloor>rank\<rfloor> \<and> \<lceil>rank\<rceil> < int (length values)
         then Some (interpolate values rank)
         else None)"

definition prctile :: "rat list \<Rightarrow> rat list \<Rightarrow> rat list option" where
  "prctile x p = those (map (percentile x) p)"

text \<open>
  Modelled from the spec: \<^verbatim>\<open>matplotlib.mlab.prctile_rank\<close>. Spec, section 4.1: the rank
  of each value among the percentiles \<open>p\<close> of the values themselves; with
  \<open>p = (20, 80)\<close>, rank 0 is the low bucket (at or below the 20th percentile), rank 2 the
  high bucket (above the 80th) and rank 1 the middle.
\<close>

definition prctile_rank :: "rat list \<Rightarrow> rat list \<Rightarrow> nat list option" where
  "prctile_rank x p = map_option (\<lambda>ptiles. map (searchsorted ptiles) x) (prctile x p)"

subsection \<open>assoc\<close>

text \<open>
  The inner loop of \<^verbatim>\<open>assoc\<close> (lines 148-157), over the enumerated points of series 1,
  for the lag \<open>lag\<close> of index \<open>ilag\<close>. It returns the array as far as it was filled,
  with the exception that stopped it, if any.
\<close>

fun series1_loop ::
  "rat list \<Rightarrow> rat \<Rightarrow> nat \<Rightarrow> rat \<Rightarrow> (nat \<times> rat) list \<Rightarrow> ndarray \<Rightarrow> error option \<times> ndarray" where
  "series1_loop p2 w ilag lag [] a = (None, a)"
| "series1_loop p2 w ilag lag ((nss, tp1) # rest) a =
     (let t_lower = tp1 + lag - w;
          t_upper = tp1 + lag + w;
          inds2 = tOverlap (t_lower, t_upper) p2;
          numby = (case inds2 of None \<Rightarrow> 0 | Some l \<Rightarrow> of_nat (length l))
      in case setitem a (nss, ilag) numby of
           Inl e \<Rightarrow> (Some e, a)
         | Inr a' \<Rightarrow> series1_loop p2 w ilag lag rest a')"

text \<open>The outer loop (line 147), over the enumerated lags.\<close>

fun lag_loop ::
  "rat list \<Rightarrow> rat list \<Rightarrow> rat \<Rightarrow> (nat \<times> rat) list \<Rightarrow> ndarray \<Rightarrow> error option \<times> ndarray" where
  "lag_loop p1 p2 w [] a = (None, a)"
| "lag_loop p1 p2 w ((ilag, lag) # rest) a =
     (case series1_loop p2 w ilag lag (enumerate 0 p1) a of
        (Some e, a') \<Rightarrow> (Some e, a')
      | (None, a') \<Rightarrow> lag_loop p1 p2 w rest a')"

text \<open>
  Python's truth value of the arguments \<open>u\<close> and \<open>h\<close> and of the attributes: \<^verbatim>\<open>None\<close>,
  an empty list and a zero number are false.
\<close>

definition truthy_lags :: "rat list option \<Rightarrow> bool" where
  "truthy_lags u = (case u of None \<Rightarrow> False | Some l \<Rightarrow> l \<noteq> [])"

definition truthy_winhalf :: "rat option \<Rightarrow> bool" where
  "truthy_winhalf h = (case h of None \<Rightarrow> False | Some x \<Rightarrow> x \<noteq> 0)"

text \<open>
  \<^verbatim>\<open>PPro.assoc\<close> (lines 120-165). The result is the object after the call, with
  \<open>Inr ()\<close> where the method returns \<^verbatim>\<open>None\<close>. The \<^verbatim>\<open>try\<close> block (lines 128-138)
  assigns \<open>self.lags\<close> before it tests \<open>self.winhalf\<close>, so that an assertion that fails
  leaves the assignments made before it.
\<close>

definition assoc :: "rat list option \<Rightarrow> rat option \<Rightarrow> PPro \<Rightarrow> (error + unit) \<times> PPro" where
  "assoc u h self0 =
     (let self1 = (if truthy_lags u then self0\<lparr>lags := u\<rparr> else self0) in
      case lags self1 of
        None \<Rightarrow> (Inl ConfigurationError, self1)
      | Some lgs \<Rightarrow>
          if lgs = [] then (Inl ConfigurationError, self1)
          else
            let self2 = (if truthy_winhalf h then self1\<lparr>winhalf := h\<rparr> else self1) in
            case winhalf self2 of
              None \<Rightarrow> (Inl ConfigurationError, self2)
            | Some w \<Rightarrow>
                if w = 0 then (Inl ConfigurationError, self2)
                else
                  (case lag_loop (process1 self2) (process2 self2) w (enumerate 0 lgs)
                          (np_zeros (length (process1 self2), length lgs)) of
                     (Some e, a) \<Rightarrow> (Inl e, self2\<lparr>n_assoc := Some a\<rparr>)
                   | (None, a) \<Rightarrow>
                       let self3 = self2\<lparr>n_assoc := Some a, assoc_total := Some (np_sum_axis0 a)\<rparr> in
                       case prctile_rank lgs [20, 80] of
                         None \<Rightarrow> (Inl IndexError, self3)
                       | Some pul \<Rightarrow>
                           let valsL = mask_select (np_sum_axis0 a) pul 0;
                               valsR = mask_select (np_sum_axis0 a) pul 2
                           in (Inr (),
                               self3\<lparr>asympt_assoc :=
                                 Some (np_mean [np_mean (map Fin valsL), np_mean (map Fin valsR)])\<rparr>)))"

text \<open>
  The lags and the half-width that a call works with: the arguments \<open>u\<close> and \<open>h\<close>
  where they are true, the stored attributes otherwise (lines 129-133).
\<close>

definition merged_lags :: "rat list option \<Rightarrow> PPro \<Rightarrow> rat list option" where
  "merged_lags u self = (if truthy_lags u then u else lags self)"

definition merged_winhalf :: "rat option \<Rightarrow> PPro \<Rightarrow> rat option" where
  "merged_winhalf h self = (if truthy_winhalf h then h else winhalf self)"

subsection \<open>\<^verbatim>\<open>boots_ci\<close>\<close>

text \<open>\<^verbatim>\<open>np.empty([n])\<close>: \<open>n\<close> floats that are not initialised.\<close>

definition np_empty :: "nat \<Rightarrow> rat list" where
  "np_empty n = replicate n undefined"

text \<open>The dictionary \<^verbatim>\<open>data_copy\<close> of lines 285-287: index to element.\<close>

definition dict_loop :: "rat list \<Rightarrow> (nat \<rightharpoonup> rat)" where
  "dict_loop data = fold (\<lambda>(el, rec) data_copy. data_copy(el \<mapsto> rec)) (enumerate 0 data) Map.empty"

text \<open>
  Lines 292-293, one resample: \<^verbatim>\<open>surr_ser[el] = data_copy[rec]\<close> for the enumerated
  drawn indices. The lookup raises KeyError on an absent key, the store IndexError
  outside the array.
\<close>

fun resample_loop :: "(nat \<rightharpoonup> rat) \<Rightarrow> (nat \<times> nat) list \<Rightarrow> rat list \<Rightarrow> error + rat list" where
  "resample_loop data_copy [] surr_ser = Inr surr_ser"
| "resample_loop data_copy ((el, rec) # rest) surr_ser =
     (case data_copy rec of
        None \<Rightarrow> Inl KeyError
      | Some v \<Rightarrow>
          if el < length surr_ser then resample_loop data_copy rest (surr_ser[el := v])
          else Inl IndexError)"

text \<open>\<^verbatim>\<open>ran_el[:, i]\<close>: column \<open>i\<close> of the array of drawn indices, given by its rows.\<close>

definition column :: "nat list list \<Rightarrow> nat \<Rightarrow> error + nat list" where
  "column ran_el i =
     (if \<forall>row \<in> set ran_el. i < length row then Inr (map (\<lambda>row. row ! i) ran_el)
      else Inl IndexError)"

text \<open>
  Lines 290-294, the loop over the surrogates. \<^verbatim>\<open>surr_ser\<close> is allocated once and
  written again by every iteration.
\<close>

fun boots_loop ::
  "(rat list \<Rightarrow> rat) \<Rightarrow> (nat \<rightharpoonup> rat) \<Rightarrow> nat list list \<Rightarrow> nat list \<Rightarrow> rat list \<Rightarrow> rat list
     \<Rightarrow> error + rat list" where
  "boots_loop func data_copy ran_el [] surr_ser surr_quan = Inr surr_quan"
| "boots_loop func data_copy ran_el (i # rest) surr_ser surr_quan =
     (case column ran_el i of
        Inl e \<Rightarrow> Inl e
      | Inr col \<Rightarrow>
          (case resample_loop data_copy (enumerate 0 col) surr_ser of
             Inl e \<Rightarrow> Inl e
           | Inr surr_ser' \<Rightarrow>
               if i < length surr_quan
               then boots_loop func data_copy ran_el rest surr_ser' (surr_quan[i := func surr_ser'])
               else Inl IndexError))"

text \<open>
  \<^verbatim>\<open>boots_ci(data, n, inter, func)\<close> (lines 239-300); the confidence level
  \<^verbatim>\<open>inter\<close> is written \<open>inter'\<close>. The random source is numpy's
  global generator: \<open>ran_el\<close> is the array that \<^verbatim>\<open>randint(0, n_els, size=[n_els,n])\<close>
  returns on line 289, given by its \<open>n_els\<close> rows of \<open>n\<close> indices. With at most
  two elements, line 298 raises TypeError and nothing is returned.
\<close>

definition boots_ci ::
  "nat list list \<Rightarrow> rat list \<Rightarrow> nat \<Rightarrow> rat \<Rightarrow> (rat list \<Rightarrow> rat) \<Rightarrow> error + rat \<times> rat" where
  "boots_ci ran_el data n inter' func =
     (let perc_low = (100 - inter') / 2;
          perc_high = inter' + perc_low;
          n_els = length data
      in if n_els > 2
         then (case boots_loop func (dict_loop data) ran_el [0..<n] (np_empty n_els) (np_empty n) of
                 Inl e \<Rightarrow> Inl e
               | Inr surr_quan \<Rightarrow>
                   (case prctile surr_quan [perc_low, perc_high] of
                      None \<Rightarrow> Inl IndexError
                    | Some pul \<Rightarrow> Inr (pul ! 0, pul ! 1)))
         else Inl TypeError)"

text \<open>
  What numpy documents of \<^verbatim>\<open>randint(0, n_els, size=[n_els,n])\<close>: \<open>n_els\<close> rows of
  \<open>n\<close> integers, each in \<open>[0, n_els)\<close>.
\<close>

definition draws_ok :: "nat list list \<Rightarrow> nat \<Rightarrow> nat \<Rightarrow> bool" where
  "draws_ok ran_el n_els n =
     (length ran_el = n_els \<and> (\<forall>row \<in> set ran_el. length row = n \<and> (\<forall>r \<in> set row. r < n_els)))"

subsection \<open>Notions used in the proofs\<close>

text \<open>An array whose rows agree with its shape.\<close>

definition wf_array :: "ndarray \<Rightarrow> bool" where
  "wf_array a = (length (cell a) = nrows a \<and> (\<forall>row \<in> set (cell a). length row = ncols a))"

text \<open>
  The number of points of \<open>p2\<close> in the closed window of half-width \<open>w\<close> around
  \<open>tp1 + lag\<close>.
\<close>

definition window_count :: "rat list \<Rightarrow> rat \<Rightarrow> rat \<Rightarrow> rat \<Rightarrow> rat" where
  "window_count p2 w lag tp1 =
     of_nat (length (filter (\<lambda>t. tp1 + lag - w \<le> t \<and> t \<le> tp1 + lag + w) p2))"

text \<open>The example of the spec's section 8: three points a series, three lags.\<close>

definition example_session :: PPro where
  "example_session = PPro_init [0, 10, 20] [1, 11, 22] None None"

text \<open>The object after \<^verbatim>\<open>assoc\<close> with lags -2, 0, 2 and half-width 2 on it.\<close>

definition example_result :: PPro where
  "example_result =
     \<lparr>process1 = [0, 10, 20], process2 = [1, 11, 22], lags = Some [- 2, 0, 2], winhalf = Some 2,
      n_assoc = Some \<lparr>nrows = 3, ncols = 3, cell = [[0, 1, 1], [0, 1, 1], [0, 1, 1]]\<rparr>,
      assoc_total = Some [0, 3, 3], asympt_assoc = Some (Fin (3 / 2)), ci = None\<rparr>"

text \<open>A session without any point in series 1, configured at construction.\<close>

definition empty_session :: PPro where
  "empty_session = PPro_init [] [1, 11, 22] (Some [- 2, 0, 2]) (Some 2)"

section \<open>Properties\<close>

subsection \<open>swap\<close>

text \<open>
  C10. \<^verbatim>\<open>swap\<close> exchanges \<open>process1\<close> and \<open>process2\<close> and changes nothing else: the
  lags, the half-width and every derived attribute (count matrix, association curve,
  asymptotic association, confidence intervals) are as before, and swapping twice
  gives the object back.
\<close>

theorem swap_frame:
  "process1 (swap s) = process2 s \<and> process2 (swap s) = process1 s \<and>
   lags (swap s) = lags s \<and> winhalf (swap s) = winhalf s \<and>
   n_assoc (swap s) = n_assoc s \<and> assoc_total (swap s) = assoc_total s \<and>
   asympt_assoc (swap s) = asympt_assoc s \<and> ci (swap s) = ci s \<and>
   swap s = s\<lparr>process1 := process2 s, process2 := process1 s\<rparr> \<and>
   swap (swap s) = s"
  by (simp add: swap_def Let_def)

subsection \<open>The counting loops\<close>

text \<open>
  What \<^verbatim>\<open>assoc\<close> makes of the answer of \<open>tOverlap\<close> is the number of points in the
  closed window; "no match" counts as zero.
\<close>

lemma length_filter_indices:
  "length (filter (\<lambda>k. P (xs ! k)) [0..<length xs]) = length (filter P xs)"
proof -
  have "filter P xs = filter P (map (nth xs) [0..<length xs])"
    by (simp add: map_nth)
  also have "\<dots> = map (nth xs) (filter (P \<circ> nth xs) [0..<length xs])"
    by (simp only: filter_map)
  finally show ?thesis
    by (simp add: comp_def)
qed

lemma tOverlap_count:
  "(case tOverlap (lo, hi) p2 of None \<Rightarrow> 0 | Some l \<Rightarrow> of_nat (length l)) =
   (of_nat (length (filter (\<lambda>t. lo \<le> t \<and> t \<le> hi) p2)) :: rat)"
proof -
  have "length (filter (\<lambda>k. lo \<le> p2 ! k \<and> p2 ! k \<le> hi) [0..<length p2]) =
        length (filter (\<lambda>t. lo \<le> t \<and> t \<le> hi) p2)"
    by (rule length_filter_indices)
  then show ?thesis
    by (auto simp: tOverlap_def Let_def)
qed

lemma wf_np_zeros: "wf_array (np_zeros (r, c))"
  by (simp add: wf_array_def np_zeros_def)

lemma setitem_ok:
  assumes "wf_array a" "i < nrows a" "j < ncols a"
  shows "\<exists>a'. setitem a (i, j) v = Inr a' \<and> wf_array a' \<and> nrows a' = nrows a \<and> ncols a' = ncols a \<and>
           (\<forall>i' j'. cell a' ! i' ! j' = (if i' = i \<and> j' = j then v else cell a ! i' ! j'))"
proof -
  let ?a' = "a\<lparr>cell := (cell a)[i := (cell a ! i)[j := v]]\<rparr>"
  have s: "setitem a (i, j) v = Inr ?a'"
    using assms by (simp add: setitem_def)
  have len: "length (cell a) = nrows a" and rows: "\<And>row. row \<in> set (cell a) \<Longrightarrow> length row = ncols a"
    using assms(1) by (auto simp: wf_array_def)
  have li: "length (cell a ! i) = ncols a"
    using rows assms(2) len by simp
  have w: "wf_array ?a'"
    using len rows li by (auto simp: wf_array_def dest!: set_update_subset_insert[THEN subsetD])
  have c: "\<forall>i' j'. cell ?a' ! i' ! j' = (if i' = i \<and> j' = j then v else cell a ! i' ! j')"
    using len li assms by (auto simp: nth_list_update)
  show ?thesis using s w c by simp
qed

text \<open>
  The inner loop fills column \<open>ilag\<close> on the rows it enumerates and never leaves the
  array; the outer loop fills the columns of the lags it enumerates.
\<close>

lemma series1_loop_enumerate:
  assumes "wf_array a" "ilag < ncols a" "k + length xs \<le> nrows a"
  shows "\<exists>a'. series1_loop p2 w ilag lag (enumerate k xs) a = (None, a') \<and> wf_array a' \<and>
           nrows a' = nrows a \<and> ncols a' = ncols a \<and>
           (\<forall>i j. cell a' ! i ! j =
              (if j = ilag \<and> k \<le> i \<and> i < k + length xs then window_count p2 w lag (xs ! (i - k))
               else cell a ! i ! j))"
  using assms
proof (induction xs arbitrary: k a)
  case Nil
  then show ?case by simp
next
  case (Cons tp1 xs)
  let ?v = "window_count p2 w lag tp1"
  from Cons.prems obtain a1 where
    s: "setitem a (k, ilag) ?v = Inr a1" and w1: "wf_array a1" and
    n1: "nrows a1 = nrows a" "ncols a1 = ncols a" and
    c1: "\<forall>i' j'. cell a1 ! i' ! j' = (if i' = k \<and> j' = ilag then ?v else cell a ! i' ! j')"
    using setitem_ok[of a k ilag ?v] by auto
  from Cons.prems n1 have "ilag < ncols a1" "Suc k + length xs \<le> nrows a1" by simp_all
  from Cons.IH[OF w1 this] obtain a' where
    r: "series1_loop p2 w ilag lag (enumerate (Suc k) xs) a1 = (None, a')" and w': "wf_array a'" and
    n': "nrows a' = nrows a1" "ncols a' = ncols a1" and
    c': "\<forall>i j. cell a' ! i ! j =
              (if j = ilag \<and> Suc k \<le> i \<and> i < Suc k + length xs then window_count p2 w lag (xs ! (i - Suc k))
               else cell a1 ! i ! j)"
    by blast
  have run: "series1_loop p2 w ilag lag (enumerate k (tp1 # xs)) a = (None, a')"
    using s r by (simp add: Let_def tOverlap_count window_count_def)
  have cells: "\<forall>i j. cell a' ! i ! j =
              (if j = ilag \<and> k \<le> i \<and> i < k + length (tp1 # xs) then window_count p2 w lag ((tp1 # xs) ! (i - k))
               else cell a ! i ! j)"
  proof (intro allI)
    fix i j
    show "cell a' ! i ! j =
              (if j = ilag \<and> k \<le> i \<and> i < k + length (tp1 # xs) then window_count p2 w lag ((tp1 # xs) ! (i - k))
               else cell a ! i ! j)"
    proof (cases "i = k")
      case True
      then show ?thesis using c' c1 by simp
    next
      case False
      then show ?thesis using c' c1 by (auto simp: nth_Cons' Suc_diff_Suc not_less less_Suc_eq_le)
    qed
  qed
  show ?case using run w' n' n1 cells by simp
qed

lemma lag_loop_enumerate:
  assumes "wf_array a" "nrows a = length p1" "k + length lgs \<le> ncols a"
  shows "\<exists>a'. lag_loop p1 p2 w (enumerate k lgs) a = (None, a') \<and> wf_array a' \<and>
           nrows a' = nrows a \<and> ncols a' = ncols a \<and>
           (\<forall>i j. cell a' ! i ! j =
              (if i < length p1 \<and> k \<le> j \<and> j < k + length lgs then window_count p2 w (lgs ! (j - k)) (p1 ! i)
               else cell a ! i ! j))"
  using assms
proof (induction lgs arbitrary: k a)
  case Nil
  then show ?case by simp
next
  case (Cons lag lgs)
  from Cons.prems have "k < ncols a" "0 + length p1 \<le> nrows a" by simp_all
  from series1_loop_enumerate[OF Cons.prems(1) this, of p2 w lag] obtain a1 where
    s: "series1_loop p2 w k lag (enumerate 0 p1) a = (None, a1)" and w1: "wf_array a1" and
    n1: "nrows a1 = nrows a" "ncols a1 = ncols a" and
    c1: "\<forall>i j. cell a1 ! i ! j =
              (if j = k \<and> i < length p1 then window_count p2 w lag (p1 ! i) else cell a ! i ! j)"
    by auto
  from Cons.prems n1 have "nrows a1 = length p1" "Suc k + length lgs \<le> ncols a1" by simp_all
  from Cons.IH[OF w1 this] obtain a' where
    r: "lag_loop p1 p2 w (enumerate (Suc k) lgs) a1 = (None, a')" and w': "wf_array a'" and
    n': "nrows a' = nrows a1" "ncols a' = ncols a1" and
    c': "\<forall>i j. cell a' ! i ! j =
              (if i < length p1 \<and> Suc k \<le> j \<and> j < Suc k + length lgs
               then window_count p2 w (lgs ! (j - Suc k)) (p1 ! i)
               else cell a1 ! i ! j)"
    by blast
  have run: "lag_loop p1 p2 w (enumerate k (lag # lgs)) a = (None, a')"
    using s r by simp
  have cells: "\<forall>i j. cell a' ! i ! j =
              (if i < length p1 \<and> k \<le> j \<and> j < k + length (lag # lgs)
               then window_count p2 w ((lag # lgs) ! (j - k)) (p1 ! i)
               else cell a ! i ! j)"
  proof (intro allI)
    fix i j
    show "cell a' ! i ! j =
              (if i < length p1 \<and> k \<le> j \<and> j < k + length (lag # lgs)
               then window_count p2 w ((lag # lgs) ! (j - k)) (p1 ! i)
               else cell a ! i ! j)"
    proof (cases "j = k")
      case True
      then show ?thesis using c' c1 by simp
    next
      case False
      then show ?thesis using c' c1 by (auto simp: nth_Cons' Suc_diff_Suc not_less less_Suc_eq_le)
    qed
  qed
  show ?case using run w' n' n1 cells by simp
qed

lemma np_sum_axis0_nth:
  assumes "wf_array a" "j < ncols a"
  shows "np_sum_axis0 a ! j = (\<Sum>i<nrows a. cell a ! i ! j)"
proof -
  have "np_sum_axis0 a ! j = sum_list (map (\<lambda>row. row ! j) (cell a))"
    using assms(2) by (simp add: np_sum_axis0_def)
  also have "\<dots> = (\<Sum>i = 0..<length (cell a). cell a ! i ! j)"
    by (simp add: sum_list_sum_nth)
  also have "\<dots> = (\<Sum>i<nrows a. cell a ! i ! j)"
    using assms(1) by (simp add: wf_array_def lessThan_atLeast0)
  finally show ?thesis .
qed

subsection \<open>Percentiles\<close>

text \<open>A percentile between 0 and 100 of a non-empty array has a value.\<close>

lemma percentile_defined:
  assumes "x \<noteq> []" "0 \<le> p" "p \<le> 100"
  shows "\<exists>v. percentile x p = Some v"
proof -
  let ?n = "length (sort x)"
  let ?r = "p / 100 * (of_nat ?n - 1)"
  have n: "1 \<le> ?n" using assms(1) by (cases x) simp_all
  then have m: "(0::rat) \<le> of_nat ?n - 1" by simp
  have r0: "0 \<le> ?r" using assms(2) m by simp
  have "p / 100 \<le> 1" using assms(3) by simp
  then have "?r \<le> 1 * (of_nat ?n - 1)" using m by (rule mult_right_mono)
  then have r1: "?r \<le> of_int (int ?n - 1)" by simp
  have lo: "0 \<le> \<lfloor>?r\<rfloor>" using r0 by simp
  have "\<lceil>?r\<rceil> \<le> int ?n - 1" using r1 by (simp only: ceiling_le_iff)
  then have hi: "\<lceil>?r\<rceil> < int ?n" by simp
  show ?thesis using lo hi by (simp add: percentile_def Let_def)
qed

lemma percentile_Some:
  assumes "percentile x p = Some a"
  shows "0 \<le> \<lfloor>p / 100 * (of_nat (length x) - 1)\<rfloor>"
    and "\<lceil>p / 100 * (of_nat (length x) - 1)\<rceil> < int (length x)"
    and "a = interpolate (sort x) (p / 100 * (of_nat (length x) - 1))"
  using assms by (auto simp: percentile_def Let_def split: if_splits)

lemma prctile_2080_defined:
  assumes "x \<noteq> []"
  shows "\<exists>p20 p80. prctile x [20, 80] = Some [p20, p80]"
proof -
  obtain a where a: "percentile x 20 = Some a" using percentile_defined[OF assms, of 20] by auto
  obtain b where b: "percentile x 80 = Some b" using percentile_defined[OF assms, of 80] by auto
  show ?thesis using a b by (simp add: prctile_def)
qed

lemma prctile_rank_2080_defined:
  assumes "x \<noteq> []"
  shows "\<exists>pul. prctile_rank x [20, 80] = Some pul \<and> length pul = length x"
  using prctile_2080_defined[OF assms] by (auto simp: prctile_rank_def)

text \<open>The interpolated value lies between its two neighbours and grows with the rank.\<close>

lemma interp_bounds:
  assumes "sorted vs" "0 \<le> \<lfloor>r\<rfloor>" "\<lceil>r\<rceil> < int (length vs)"
  shows "vs ! nat \<lfloor>r\<rfloor> \<le> interpolate vs r" and "interpolate vs r \<le> vs ! nat \<lceil>r\<rceil>"
proof -
  let ?d = "vs ! nat \<lceil>r\<rceil> - vs ! nat \<lfloor>r\<rfloor>"
  let ?t = "r - of_int \<lfloor>r\<rfloor>"
  have le: "nat \<lfloor>r\<rfloor> \<le> nat \<lceil>r\<rceil>" by (simp add: floor_le_ceiling nat_mono)
  have "nat \<lceil>r\<rceil> < length vs" using assms(2,3) by linarith
  then have d: "0 \<le> ?d" using assms(1) le by (simp add: sorted_nth_mono)
  have t: "0 \<le> ?t" "?t \<le> 1" by linarith+
  show "vs ! nat \<lfloor>r\<rfloor> \<le> interpolate vs r" using d t by (simp add: interpolate_def)
  have "?d * ?t \<le> ?d * 1" using d t by (intro mult_left_mono) simp_all
  then show "interpolate vs r \<le> vs ! nat \<lceil>r\<rceil>" by (simp add: interpolate_def)
qed

lemma interp_mono:
  assumes s: "sorted vs" and r: "r1 \<le> r2" and lo: "0 \<le> \<lfloor>r1\<rfloor>" and hi: "\<lceil>r2\<rceil> < int (length vs)"
  shows "interpolate vs r1 \<le> interpolate vs r2"
proof -
  have f12: "\<lfloor>r1\<rfloor> \<le> \<lfloor>r2\<rfloor>" using r by (rule floor_mono)
  have c12: "\<lceil>r1\<rceil> \<le> \<lceil>r2\<rceil>" using r by (rule ceiling_mono)
  have lo2: "0 \<le> \<lfloor>r2\<rfloor>" using lo f12 by linarith
  have hi1: "\<lceil>r1\<rceil> < int (length vs)" using hi c12 by linarith
  note b1 = interp_bounds[OF s lo hi1]
  note b2 = interp_bounds[OF s lo2 hi]
  show ?thesis
  proof (cases "\<lceil>r1\<rceil> \<le> \<lfloor>r2\<rfloor>")
    case True
    have "nat \<lfloor>r2\<rfloor> < length vs" using hi lo2 floor_le_ceiling[of r2] by linarith
    moreover have "nat \<lceil>r1\<rceil> \<le> nat \<lfloor>r2\<rfloor>" using True by (rule nat_mono)
    ultimately have "vs ! nat \<lceil>r1\<rceil> \<le> vs ! nat \<lfloor>r2\<rfloor>" using s by (simp add: sorted_nth_mono)
    then show ?thesis using b1(2) b2(1) by linarith
  next
    case False
    then have lt: "\<lfloor>r2\<rfloor> < \<lceil>r1\<rceil>" by simp
    have c1: "\<lceil>r1\<rceil> \<le> \<lfloor>r1\<rfloor> + 1" by (simp add: ceiling_altdef)
    have k: "\<lfloor>r2\<rfloor> = \<lfloor>r1\<rfloor>" "\<lceil>r1\<rceil> = \<lfloor>r1\<rfloor> + 1" using lt c1 f12 by linarith+
    have "\<lceil>r2\<rceil> \<le> \<lfloor>r2\<rfloor> + 1" by (simp add: ceiling_altdef)
    then have k2: "\<lceil>r2\<rceil> = \<lfloor>r1\<rfloor> + 1" using c12 k by linarith
    let ?d = "vs ! nat (\<lfloor>r1\<rfloor> + 1) - vs ! nat \<lfloor>r1\<rfloor>"
    have "nat (\<lfloor>r1\<rfloor> + 1) < length vs" using hi k2 lo by linarith
    moreover have "nat \<lfloor>r1\<rfloor> \<le> nat (\<lfloor>r1\<rfloor> + 1)" by simp
    ultimately have d: "0 \<le> ?d" using s by (simp add: sorted_nth_mono)
    have "?d * (r1 - of_int \<lfloor>r1\<rfloor>) \<le> ?d * (r2 - of_int \<lfloor>r1\<rfloor>)"
      using d r by (intro mult_left_mono) simp_all
    then show ?thesis by (simp add: interpolate_def k k2)
  qed
qed

lemma percentile_mono:
  assumes "0 \<le> p" "p \<le> q" "percentile x p = Some a" "percentile x q = Some b"
  shows "a \<le> b"
proof -
  let ?m = "of_nat (length x) - (1::rat)"
  let ?r1 = "p / 100 * ?m" and ?r2 = "q / 100 * ?m"
  note b1 = percentile_Some[OF assms(3)]
  note b2 = percentile_Some[OF assms(4)]
  have ne: "1 \<le> length x"
    using b1(1,2) floor_le_ceiling[of ?r1] by linarith
  then have "(of_nat 1 :: rat) \<le> of_nat (length x)" by (rule of_nat_mono)
  then have m: "0 \<le> ?m" by simp
  have "p / 100 \<le> q / 100" using assms(2) by simp
  then have r: "?r1 \<le> ?r2" using m by (rule mult_right_mono)
  have "\<lceil>?r2\<rceil> < int (length (sort x))" using b2(2) by simp
  from interp_mono[OF sorted_sort r b1(1) this] show ?thesis
    unfolding b1(3) b2(3) .
qed

lemma prctile_2080_ordered:
  assumes "prctile x [20, 80] = Some [p20, p80]"
  shows "p20 \<le> p80"
proof -
  from assms have "percentile x 20 = Some p20" "percentile x 80 = Some p80"
    by (auto simp: prctile_def split: option.splits)
  then show ?thesis using percentile_mono[of 20 80 x p20 p80] by simp
qed

lemma takeWhile_pair:
  "takeWhile (\<lambda>e. e < v) [a, b::rat] = (if a < v then (if b < v then [a, b] else [a]) else [])"
  by simp

lemma searchsorted_pair:
  "searchsorted [a, b] v = (if v \<le> a then 0 else if v \<le> b then 1 else 2)"
  unfolding searchsorted_def takeWhile_pair by (cases "a < v"; cases "b < v") simp_all

subsection \<open>Boolean masks and means\<close>

lemma zip_as_map:
  "length a = length b \<Longrightarrow> zip a b = map (\<lambda>j. (a ! j, b ! j)) [0..<length a]"
  by (rule nth_equalityI) simp_all

lemma mask_select_nth:
  assumes "length pul = length a"
  shows "mask_select a pul k = map (nth a) (filter (\<lambda>j. pul ! j = k) [0..<length a])"
proof -
  have "zip a pul = map (\<lambda>j. (a ! j, pul ! j)) [0..<length a]"
    using assms by (simp add: zip_as_map)
  then show ?thesis
    by (simp add: mask_select_def filter_map comp_def)
qed

lemma np_mean_fin:
  "np_mean (map Fin xs) = (if xs = [] then NaN else Fin (sum_list xs / of_nat (length xs)))"
proof -
  have "finite_vals (map Fin xs) = Some xs" by (induction xs) simp_all
  then show ?thesis by (simp add: np_mean_def)
qed

lemma np_mean_Nil: "np_mean [] = NaN"
  by (simp add: np_mean_def)

lemma np_mean_pair:
  "np_mean [x, y] = (case x of NaN \<Rightarrow> NaN | Fin a \<Rightarrow> (case y of NaN \<Rightarrow> NaN | Fin b \<Rightarrow> Fin ((a + b) / 2)))"
  by (simp add: np_mean_def split: npfloat.splits)

subsection \<open>The two outcomes of assoc\<close>

text \<open>
  Without usable lags or half-width the call returns the error string; the only
  attribute it may have written is \<open>lags\<close>.
\<close>

lemma assoc_unconfigured_aux:
  assumes "\<not> truthy_lags (merged_lags u s) \<or> \<not> truthy_winhalf (merged_winhalf h s)"
  shows "assoc u h s = (Inl ConfigurationError, s\<lparr>lags := merged_lags u s\<rparr>)"
  using assms
  by (auto simp: assoc_def merged_lags_def merged_winhalf_def truthy_lags_def truthy_winhalf_def Let_def
           split: option.splits if_splits)

text \<open>With both, the call returns \<^verbatim>\<open>None\<close> and the object is as follows.\<close>

lemma assoc_configured_aux:
  assumes l: "merged_lags u s = Some lgs" "lgs \<noteq> []"
      and w: "merged_winhalf h s = Some w" "w \<noteq> 0"
  shows "\<exists>a pul. assoc u h s =
           (Inr (), s\<lparr>lags := Some lgs, winhalf := Some w, n_assoc := Some a,
                     assoc_total := Some (np_sum_axis0 a),
                     asympt_assoc := Some (np_mean [np_mean (map Fin (mask_select (np_sum_axis0 a) pul 0)),
                                                   np_mean (map Fin (mask_select (np_sum_axis0 a) pul 2))])\<rparr>) \<and>
           prctile_rank lgs [20, 80] = Some pul \<and> length pul = length lgs \<and>
           wf_array a \<and> nrows a = length (process1 s) \<and> ncols a = length lgs \<and>
           (\<forall>i j. i < length (process1 s) \<longrightarrow> j < length lgs \<longrightarrow>
                cell a ! i ! j = window_count (process2 s) w (lgs ! j) (process1 s ! i))"
proof -
  let ?s1 = "if truthy_lags u then s\<lparr>lags := u\<rparr> else s"
  let ?s2 = "if truthy_winhalf h then ?s1\<lparr>winhalf := h\<rparr> else ?s1"
  have l1: "lags ?s1 = Some lgs" using l by (cases "truthy_lags u") (simp_all add: merged_lags_def)
  have w2: "winhalf ?s2 = Some w" using w by (cases "truthy_winhalf h") (simp_all add: merged_winhalf_def)
  have s2: "?s2 = s\<lparr>lags := Some lgs, winhalf := Some w\<rparr>"
    using l w by (auto simp: merged_lags_def merged_winhalf_def split: if_splits)
  have p: "process1 ?s2 = process1 s" "process2 ?s2 = process2 s" by simp_all
  let ?a0 = "np_zeros (length (process1 s), length lgs)"
  have "wf_array ?a0" "nrows ?a0 = length (process1 s)" "0 + length lgs \<le> ncols ?a0"
    by (simp_all add: wf_np_zeros) (simp_all add: np_zeros_def)
  from lag_loop_enumerate[OF this, of "process2 s" w] obtain a where
    run: "lag_loop (process1 s) (process2 s) w (enumerate 0 lgs) ?a0 = (None, a)" and wa: "wf_array a" and
    shp: "nrows a = nrows ?a0" "ncols a = ncols ?a0" and
    c: "\<forall>i j. cell a ! i ! j =
          (if i < length (process1 s) \<and> 0 \<le> j \<and> j < 0 + length lgs
           then window_count (process2 s) w (lgs ! (j - 0)) (process1 s ! i) else cell ?a0 ! i ! j)"
    by blast
  obtain pul where pul: "prctile_rank lgs [20, 80] = Some pul" "length pul = length lgs"
    using prctile_rank_2080_defined[OF l(2)] by auto
  have "assoc u h s =
     (Inr (), ?s2\<lparr>n_assoc := Some a, assoc_total := Some (np_sum_axis0 a),
                  asympt_assoc := Some (np_mean [np_mean (map Fin (mask_select (np_sum_axis0 a) pul 0)),
                                                np_mean (map Fin (mask_select (np_sum_axis0 a) pul 2))])\<rparr>)"
    unfolding assoc_def Let_def l1 option.case w2 p using l(2) w(2) run pul(1) by simp
  then show ?thesis
    using pul wa shp c unfolding s2 by (intro exI[of _ a] exI[of _ pul]) (simp add: np_zeros_def)
qed

lemma assoc_success_configured:
  assumes "assoc u h s = (Inr (), s')"
  shows "\<exists>lgs w. merged_lags u s = Some lgs \<and> lgs \<noteq> [] \<and> merged_winhalf h s = Some w \<and> w \<noteq> 0"
proof (rule ccontr)
  assume "\<not> ?thesis"
  then have "\<not> truthy_lags (merged_lags u s) \<or> \<not> truthy_winhalf (merged_winhalf h s)"
    by (auto simp: truthy_lags_def truthy_winhalf_def split: option.splits)
  from assoc_unconfigured_aux[OF this] assms show False by simp
qed

lemma assoc_asympt_aux:
  assumes l: "merged_lags u s = Some lgs" "lgs \<noteq> []"
      and w: "merged_winhalf h s = Some w" "w \<noteq> 0"
  shows "\<exists>s' tot p20 p80. assoc u h s = (Inr (), s') \<and> lags s' = Some lgs \<and>
           assoc_total s' = Some tot \<and> length tot = length lgs \<and>
           prctile lgs [20, 80] = Some [p20, p80] \<and> p20 \<le> p80 \<and>
           asympt_assoc s' =
             Some (np_mean [np_mean (map Fin (map (nth tot) (filter (\<lambda>j. lgs ! j \<le> p20) [0..<length lgs]))),
                            np_mean (map Fin (map (nth tot) (filter (\<lambda>j. p80 < lgs ! j) [0..<length lgs])))])"
proof -
  from assoc_configured_aux[OF l w] obtain s' a pul where
    r: "assoc u h s = (Inr (), s')" and l': "lags s' = Some lgs" and
    t: "assoc_total s' = Some (np_sum_axis0 a)" and
    pul: "prctile_rank lgs [20, 80] = Some pul" "length pul = length lgs" and
    shp: "ncols a = length lgs" and
    asy: "asympt_assoc s' = Some (np_mean [np_mean (map Fin (mask_select (np_sum_axis0 a) pul 0)),
                                          np_mean (map Fin (mask_select (np_sum_axis0 a) pul 2))])"
    by auto
  let ?tot = "np_sum_axis0 a"
  have len: "length ?tot = length lgs" using shp by (simp add: np_sum_axis0_def)
  obtain p20 p80 where p: "prctile lgs [20, 80] = Some [p20, p80]"
    using prctile_2080_defined[OF l(2)] by blast
  have ord: "p20 \<le> p80" using p by (rule prctile_2080_ordered)
  have pul_eq: "pul = map (searchsorted [p20, p80]) lgs"
    using pul(1) p by (simp add: prctile_rank_def)
  have low: "filter (\<lambda>j. pul ! j = 0) [0..<length lgs] = filter (\<lambda>j. lgs ! j \<le> p20) [0..<length lgs]"
    by (rule filter_cong) (auto simp: pul_eq searchsorted_pair)
  have high: "filter (\<lambda>j. pul ! j = 2) [0..<length lgs] = filter (\<lambda>j. p80 < lgs ! j) [0..<length lgs]"
    using ord by (intro filter_cong) (auto simp: pul_eq searchsorted_pair)
  have "mask_select ?tot pul 0 = map (nth ?tot) (filter (\<lambda>j. lgs ! j \<le> p20) [0..<length lgs])"
       "mask_select ?tot pul 2 = map (nth ?tot) (filter (\<lambda>j. p80 < lgs ! j) [0..<length lgs])"
    using mask_select_nth[of pul ?tot] pul(2) len low high by simp_all
  then show ?thesis using r l' t len p ord asy by simp
qed

subsection \<open>The count matrix and the association curve\<close>

text \<open>
  C1. After a successful run of \<^verbatim>\<open>assoc\<close>, the cell \<open>(i, j)\<close> of \<open>n_assoc\<close> is the number
  of points of series 2 in the closed interval from
  \<open>p1_i + lag_j - halfwidth\<close> to \<open>p1_i + lag_j + halfwidth\<close>, for the lags and the
  half-width the run worked with. An empty overlap counts as 0 and is no error.
\<close>

theorem assoc_cells_count:
  assumes "assoc u h s = (Inr (), s')"
  shows "\<exists>lgs w a. lags s' = Some lgs \<and> winhalf s' = Some w \<and> n_assoc s' = Some a \<and>
           lags s' = merged_lags u s \<and> winhalf s' = merged_winhalf h s \<and>
           process1 s' = process1 s \<and> process2 s' = process2 s \<and>
           nrows a = length (process1 s') \<and> ncols a = length lgs \<and>
           (\<forall>i<length (process1 s'). \<forall>j<length lgs.
              cell a ! i ! j =
                of_nat (length (filter (\<lambda>t. process1 s' ! i + lgs ! j - w \<le> t \<and>
                                             t \<le> process1 s' ! i + lgs ! j + w) (process2 s'))))"
proof -
  from assoc_success_configured[OF assms] obtain lgs w where
    c: "merged_lags u s = Some lgs" "lgs \<noteq> []" "merged_winhalf h s = Some w" "w \<noteq> 0"
    by blast
  from assoc_configured_aux[OF c] assms obtain a where
    "n_assoc s' = Some a" "lags s' = Some lgs" "winhalf s' = Some w"
    "process1 s' = process1 s" "process2 s' = process2 s"
    "nrows a = length (process1 s)" "ncols a = length lgs"
    "\<forall>i j. i < length (process1 s) \<longrightarrow> j < length lgs \<longrightarrow>
        cell a ! i ! j = window_count (process2 s) w (lgs ! j) (process1 s ! i)"
    by auto
  then show ?thesis
    using c by (simp add: window_count_def)
qed

theorem assoc_cells_count_witness:
  "assoc (Some [- 2, 0, 2]) (Some 2) example_session = (Inr (), example_result) \<and>
   (\<exists>lgs w a. lags example_result = Some lgs \<and> winhalf example_result = Some w \<and>
      n_assoc example_result = Some a \<and>
      lags example_result = merged_lags (Some [- 2, 0, 2]) example_session \<and>
      winhalf example_result = merged_winhalf (Some 2) example_session \<and>
      process1 example_result = process1 example_session \<and>
      process2 example_result = process2 example_session \<and>
      nrows a = length (process1 example_result) \<and> ncols a = length lgs \<and>
      (\<forall>i<length (process1 example_result). \<forall>j<length lgs.
         cell a ! i ! j =
           of_nat (length (filter (\<lambda>t. process1 example_result ! i + lgs ! j - w \<le> t \<and>
                                        t \<le> process1 example_result ! i + lgs ! j + w)
                             (process2 example_result)))))"
proof -
  have r: "assoc (Some [- 2, 0, 2]) (Some 2) example_session = (Inr (), example_result)"
    by code_simp
  show ?thesis
    using r assoc_cells_count [OF r] by (rule conjI)
qed

text \<open>
  C2. After a successful run of \<^verbatim>\<open>assoc\<close>, every entry of \<open>n_assoc\<close> is a non-negative
  integer, and \<open>assoc_total\<close> has one entry for each lag, the sum of the column of that
  lag over all points of series 1.
\<close>

theorem assoc_total_column_sums:
  assumes "assoc u h s = (Inr (), s')"
  shows "\<exists>a tot. n_assoc s' = Some a \<and> assoc_total s' = Some tot \<and>
           length (cell a) = nrows a \<and> length tot = ncols a \<and>
           (\<forall>i<nrows a. \<forall>j<ncols a. cell a ! i ! j \<in> \<nat>) \<and>
           (\<forall>j<ncols a. tot ! j = (\<Sum>i<nrows a. cell a ! i ! j))"
proof -
  from assoc_success_configured[OF assms] obtain lgs w where
    c: "merged_lags u s = Some lgs" "lgs \<noteq> []" "merged_winhalf h s = Some w" "w \<noteq> 0"
    by blast
  from assoc_configured_aux[OF c] assms obtain a where
    a: "n_assoc s' = Some a" "assoc_total s' = Some (np_sum_axis0 a)" and wf: "wf_array a" and
    shp: "nrows a = length (process1 s)" "ncols a = length lgs" and
    cells: "\<forall>i j. i < length (process1 s) \<longrightarrow> j < length lgs \<longrightarrow>
        cell a ! i ! j = window_count (process2 s) w (lgs ! j) (process1 s ! i)"
    by auto
  have nat: "\<forall>i<nrows a. \<forall>j<ncols a. cell a ! i ! j \<in> \<nat>"
    using cells shp by (simp add: window_count_def)
  have sums: "\<forall>j<ncols a. np_sum_axis0 a ! j = (\<Sum>i<nrows a. cell a ! i ! j)"
    using np_sum_axis0_nth[OF wf] by simp
  have len: "length (cell a) = nrows a" "length (np_sum_axis0 a) = ncols a"
    using wf by (simp_all add: wf_array_def np_sum_axis0_def)
  show ?thesis using a nat sums len by simp
qed

theorem assoc_total_column_sums_witness:
  "assoc (Some [- 2, 0, 2]) (Some 2) example_session = (Inr (), example_result) \<and>
   (\<exists>a tot. n_assoc example_result = Some a \<and> assoc_total example_result = Some tot \<and>
      length (cell a) = nrows a \<and> length tot = ncols a \<and>
      (\<forall>i<nrows a. \<forall>j<ncols a. cell a ! i ! j \<in> \<nat>) \<and>
      (\<forall>j<ncols a. tot ! j = (\<Sum>i<nrows a. cell a ! i ! j)))"
proof -
  have r: "assoc (Some [- 2, 0, 2]) (Some 2) example_session = (Inr (), example_result)"
    by code_simp
  show ?thesis
    using r assoc_total_column_sums [OF r] by (rule conjI)
qed

text \<open>
  C9. With an empty series 1, a non-empty series 2, a non-empty list of lags and a
  positive half-width, \<^verbatim>\<open>assoc\<close> succeeds: the count matrix has no row and the
  association curve has one zero for each lag.
\<close>

theorem assoc_empty_series1:
  assumes "process1 s = []" "process2 s \<noteq> []"
      and "merged_lags u s = Some lgs" "lgs \<noteq> []"
      and "merged_winhalf h s = Some w" "0 < w"
  shows "\<exists>s' a. assoc u h s = (Inr (), s') \<and> n_assoc s' = Some a \<and>
           nrows a = 0 \<and> cell a = [] \<and> ncols a = length lgs \<and>
           assoc_total s' = Some (replicate (length lgs) 0)"
proof -
  from assms(6) have "w \<noteq> 0" by simp
  from assoc_configured_aux[OF assms(3,4,5) this] obtain s' a where
    r: "assoc u h s = (Inr (), s')" and
    a: "n_assoc s' = Some a" "assoc_total s' = Some (np_sum_axis0 a)" and wf: "wf_array a" and
    shp: "nrows a = length (process1 s)" "ncols a = length lgs"
    by auto
  have e: "nrows a = 0" "cell a = []" using wf shp assms(1) by (simp_all add: wf_array_def)
  then have "np_sum_axis0 a = replicate (length lgs) 0"
    using shp by (simp add: np_sum_axis0_def map_replicate_const)
  then show ?thesis using r a e shp by simp
qed

theorem assoc_empty_series1_witness:
  "process1 empty_session = [] \<and> process2 empty_session \<noteq> [] \<and>
   merged_lags None empty_session = Some [- 2, 0, 2] \<and> [- 2, 0, 2 :: rat] \<noteq> [] \<and>
   merged_winhalf None empty_session = Some 2 \<and> (0::rat) < 2 \<and>
   (\<exists>s' a. assoc None None empty_session = (Inr (), s') \<and> n_assoc s' = Some a \<and>
      nrows a = 0 \<and> cell a = [] \<and> ncols a = length [- 2, 0, 2 :: rat] \<and>
      assoc_total s' = Some (replicate (length [- 2, 0, 2 :: rat]) 0))"
proof -
  have h: "process1 empty_session = []" "process2 empty_session \<noteq> []"
    "merged_lags None empty_session = Some [- 2, 0, 2]" "[- 2, 0, 2 :: rat] \<noteq> []"
    "merged_winhalf None empty_session = Some 2" "(0::rat) < 2"
    by (simp_all add: empty_session_def PPro_init_def merged_lags_def merged_winhalf_def
          truthy_lags_def truthy_winhalf_def)
  show ?thesis
    using h assoc_empty_series1 [OF h] by blast
qed

subsection \<open>Missing configuration\<close>

text \<open>
  C5, as the code has it. When the lags or the half-width are still unset or empty
  after the call-time arguments were merged over the stored attributes (a half-width of
  zero counts as unset), \<^verbatim>\<open>assoc\<close> stops with the configuration error before it
  computes anything: count matrix, association curve, asymptotic association,
  confidence intervals, both series and the stored half-width are as before. The stored
  lags are as before unless non-empty lags were passed to the call: those are stored
  before the half-width is found missing.
\<close>

theorem assoc_unconfigured:
  assumes "\<not> truthy_lags (merged_lags u s) \<or> \<not> truthy_winhalf (merged_winhalf h s)"
  shows "fst (assoc u h s) = Inl ConfigurationError \<and>
         snd (assoc u h s) = s\<lparr>lags := merged_lags u s\<rparr> \<and>
         n_assoc (snd (assoc u h s)) = n_assoc s \<and>
         assoc_total (snd (assoc u h s)) = assoc_total s \<and>
         asympt_assoc (snd (assoc u h s)) = asympt_assoc s \<and>
         ci (snd (assoc u h s)) = ci s \<and>
         winhalf (snd (assoc u h s)) = winhalf s \<and>
         process1 (snd (assoc u h s)) = process1 s \<and>
         process2 (snd (assoc u h s)) = process2 s \<and>
         (\<not> truthy_lags u \<longrightarrow> snd (assoc u h s) = s)"
  using assoc_unconfigured_aux[OF assms] by (simp add: merged_lags_def)

theorem assoc_unconfigured_witness:
  "\<not> truthy_winhalf (merged_winhalf None (PPro_init [0] [0] (Some [3]) None)) \<and>
   merged_lags (Some [1]) (PPro_init [0] [0] (Some [3]) None) = Some [1] \<and>
   fst (assoc (Some [1]) None (PPro_init [0] [0] (Some [3]) None)) = Inl ConfigurationError \<and>
   snd (assoc (Some [1]) None (PPro_init [0] [0] (Some [3]) None)) = PPro_init [0] [0] (Some [1]) None"
proof -
  have w: "\<not> truthy_winhalf (merged_winhalf None (PPro_init [0] [0] (Some [3]) None))"
    by (simp add: merged_winhalf_def truthy_winhalf_def PPro_init_def)
  then have h: "\<not> truthy_lags (merged_lags (Some [1]) (PPro_init [0] [0] (Some [3]) None)) \<or>
                \<not> truthy_winhalf (merged_winhalf None (PPro_init [0] [0] (Some [3]) None))"
    by (rule disjI2)
  have m: "merged_lags (Some [1]) (PPro_init [0] [0] (Some [3]) None) = Some [1]"
    by (simp add: merged_lags_def truthy_lags_def)
  have u: "(PPro_init [0] [0] (Some [3]) None)\<lparr>lags := Some [1]\<rparr> = PPro_init [0] [0] (Some [1]) None"
    by (simp add: PPro_init_def)
  show ?thesis
    using w m u assoc_unconfigured [OF h] by simp
qed

text \<open>
  The claim as the spec states it fails: lags passed to a call that then misses the
  half-width stay on the object.
\<close>

theorem assoc_unconfigured_counterexample:
  "\<not> truthy_winhalf (merged_winhalf None (PPro_init [0] [0] None None)) \<and>
   fst (assoc (Some [1]) None (PPro_init [0] [0] None None)) = Inl ConfigurationError \<and>
   lags (PPro_init [0] [0] None None) = None \<and>
   lags (snd (assoc (Some [1]) None (PPro_init [0] [0] None None))) = Some [1] \<and>
   snd (assoc (Some [1]) None (PPro_init [0] [0] None None)) \<noteq> PPro_init [0] [0] None None"
  by (simp add: assoc_def PPro_init_def merged_winhalf_def truthy_winhalf_def truthy_lags_def Let_def)

subsection \<open>The asymptotic association\<close>

text \<open>
  C6. After a successful run of \<^verbatim>\<open>assoc\<close>, \<open>asympt_assoc\<close> comes from buckets of the
  lag values, not of the curve: the low bucket holds the positions whose lag is at or
  below the 20th percentile of the lags, the high bucket those whose lag is above the
  80th, the rest is dropped; \<open>asympt_assoc\<close> is the mean of the two means of
  \<open>assoc_total\<close> over the buckets, that is half the sum of the two bucket means where
  both buckets are non-empty.
\<close>

theorem asympt_assoc_bucket_means:
  assumes "assoc u h s = (Inr (), s')"
  shows "\<exists>lgs tot p20 p80 low high.
           lags s' = Some lgs \<and> assoc_total s' = Some tot \<and> length tot = length lgs \<and>
           prctile lgs [20, 80] = Some [p20, p80] \<and> p20 \<le> p80 \<and>
           low = map (nth tot) (filter (\<lambda>j. lgs ! j \<le> p20) [0..<length lgs]) \<and>
           high = map (nth tot) (filter (\<lambda>j. p80 < lgs ! j) [0..<length lgs]) \<and>
           asympt_assoc s' = Some (np_mean [np_mean (map Fin low), np_mean (map Fin high)]) \<and>
           (low \<noteq> [] \<and> high \<noteq> [] \<longrightarrow>
              asympt_assoc s' =
                Some (Fin ((sum_list low / of_nat (length low) +
                            sum_list high / of_nat (length high)) / 2)))"
proof -
  from assoc_success_configured[OF assms] obtain lgs w where
    c: "merged_lags u s = Some lgs" "lgs \<noteq> []" "merged_winhalf h s = Some w" "w \<noteq> 0"
    by blast
  from assoc_asympt_aux[OF c] assms obtain tot p20 p80 where
    l: "lags s' = Some lgs" and t: "assoc_total s' = Some tot" "length tot = length lgs" and
    p: "prctile lgs [20, 80] = Some [p20, p80]" "p20 \<le> p80" and
    a: "asympt_assoc s' =
          Some (np_mean [np_mean (map Fin (map (nth tot) (filter (\<lambda>j. lgs ! j \<le> p20) [0..<length lgs]))),
                         np_mean (map Fin (map (nth tot) (filter (\<lambda>j. p80 < lgs ! j) [0..<length lgs])))])"
    by auto
  define low where "low = map (nth tot) (filter (\<lambda>j. lgs ! j \<le> p20) [0..<length lgs])"
  define high where "high = map (nth tot) (filter (\<lambda>j. p80 < lgs ! j) [0..<length lgs])"
  have a': "asympt_assoc s' = Some (np_mean [np_mean (map Fin low), np_mean (map Fin high)])"
    using a by (simp only: low_def high_def)
  have f: "low \<noteq> [] \<and> high \<noteq> [] \<longrightarrow>
             asympt_assoc s' =
               Some (Fin ((sum_list low / of_nat (length low) +
                           sum_list high / of_nat (length high)) / 2))"
    unfolding a' by (simp add: np_mean_fin np_mean_pair)
  show ?thesis
    using l t p a' f low_def high_def by blast
qed

theorem asympt_assoc_bucket_means_witness:
  "assoc (Some [- 2, 0, 2]) (Some 2) example_session = (Inr (), example_result) \<and>
   (\<exists>lgs tot p20 p80 low high.
      lags example_result = Some lgs \<and> assoc_total example_result = Some tot \<and>
      length tot = length lgs \<and>
      prctile lgs [20, 80] = Some [p20, p80] \<and> p20 \<le> p80 \<and>
      low = map (nth tot) (filter (\<lambda>j. lgs ! j \<le> p20) [0..<length lgs]) \<and>
      high = map (nth tot) (filter (\<lambda>j. p80 < lgs ! j) [0..<length lgs]) \<and>
      asympt_assoc example_result = Some (np_mean [np_mean (map Fin low), np_mean (map Fin high)]) \<and>
      (low \<noteq> [] \<and> high \<noteq> [] \<longrightarrow>
         asympt_assoc example_result =
           Some (Fin ((sum_list low / of_nat (length low) +
                       sum_list high / of_nat (length high)) / 2))))"
proof -
  have r: "assoc (Some [- 2, 0, 2]) (Some 2) example_session = (Inr (), example_result)"
    by code_simp
  show ?thesis
    using r asympt_assoc_bucket_means [OF r] by (rule conjI)
qed

text \<open>
  C7, as the code has it. Where the low or the high bucket is empty, \<^verbatim>\<open>assoc\<close> does
  not fail: it returns as usual and \<open>asympt_assoc\<close> is NaN.
\<close>

theorem asympt_assoc_empty_bucket:
  assumes "merged_lags u s = Some lgs" "lgs \<noteq> []"
      and "merged_winhalf h s = Some w" "w \<noteq> 0"
      and "prctile lgs [20, 80] = Some [p20, p80]"
      and "filter (\<lambda>l. l \<le> p20) lgs = [] \<or> filter (\<lambda>l. p80 < l) lgs = []"
  shows "fst (assoc u h s) = Inr () \<and> asympt_assoc (snd (assoc u h s)) = Some NaN"
proof -
  from assoc_asympt_aux[OF assms(1-4)] assms(5) obtain s' tot where
    r: "assoc u h s = (Inr (), s')" and
    a: "asympt_assoc s' =
          Some (np_mean [np_mean (map Fin (map (nth tot) (filter (\<lambda>j. lgs ! j \<le> p20) [0..<length lgs]))),
                         np_mean (map Fin (map (nth tot) (filter (\<lambda>j. p80 < lgs ! j) [0..<length lgs])))])"
    by auto
  have "length (filter (\<lambda>j. lgs ! j \<le> p20) [0..<length lgs]) = length (filter (\<lambda>l. l \<le> p20) lgs)"
       "length (filter (\<lambda>j. p80 < lgs ! j) [0..<length lgs]) = length (filter (\<lambda>l. p80 < l) lgs)"
    by (rule length_filter_indices)+
  then have "filter (\<lambda>j. lgs ! j \<le> p20) [0..<length lgs] = [] \<or>
             filter (\<lambda>j. p80 < lgs ! j) [0..<length lgs] = []"
    using assms(6) by (metis length_0_conv)
  then have "asympt_assoc s' = Some NaN"
    unfolding a by (auto simp: np_mean_Nil np_mean_pair split: npfloat.splits)
  then show ?thesis using r by simp
qed

theorem asympt_assoc_empty_bucket_witness:
  "merged_lags (Some [5]) example_session = Some [5] \<and> [5 :: rat] \<noteq> [] \<and>
   merged_winhalf (Some 2) example_session = Some 2 \<and> (2 :: rat) \<noteq> 0 \<and>
   prctile [5] [20, 80] = Some [5, 5] \<and>
   (filter (\<lambda>l. l \<le> 5) [5 :: rat] = [] \<or> filter (\<lambda>l. 5 < l) [5 :: rat] = []) \<and>
   fst (assoc (Some [5]) (Some 2) example_session) = Inr () \<and>
   asympt_assoc (snd (assoc (Some [5]) (Some 2) example_session)) = Some NaN"
proof -
  have h: "merged_lags (Some [5]) example_session = Some [5]" "[5 :: rat] \<noteq> []"
    "merged_winhalf (Some 2) example_session = Some 2" "(2 :: rat) \<noteq> 0"
    by (simp_all add: merged_lags_def merged_winhalf_def truthy_lags_def truthy_winhalf_def)
  have p: "prctile [5] [20, 80] = Some [5, 5]"
    by code_simp
  have e: "filter (\<lambda>l. l \<le> 5) [5 :: rat] = [] \<or> filter (\<lambda>l. 5 < l) [5 :: rat] = []"
    by simp
  show ?thesis
    using h p e asympt_assoc_empty_bucket [OF h p e] by blast
qed

text \<open>
  The claim as the spec states it fails: with the single lag 5 the high bucket is
  empty (the lag has rank 0), and the call returns \<^verbatim>\<open>None\<close> with \<open>asympt_assoc\<close> NaN.
\<close>

theorem asympt_assoc_empty_bucket_counterexample:
  "prctile_rank [5] [20, 80] = Some [0] \<and>
   fst (assoc (Some [5]) (Some 2) example_session) = Inr () \<and>
   asympt_assoc (snd (assoc (Some [5]) (Some 2) example_session)) = Some NaN"
  by code_simp

subsection \<open>The bootstrap\<close>

text \<open>The dictionary gives back the data; one resample reads the data at the drawn indices.\<close>

lemma dict_fold_enumerate:
  "fold (\<lambda>(el, rec) data_copy. data_copy(el \<mapsto> rec)) (enumerate k xs) m j =
     (if k \<le> j \<and> j < k + length xs then Some (xs ! (j - k)) else m j)"
proof (induction xs arbitrary: k m)
  case Nil
  then show ?case by auto
next
  case (Cons x xs)
  let ?f = "\<lambda>(el, rec) data_copy. data_copy(el \<mapsto> rec)"
  have step: "fold ?f (enumerate k (x # xs)) m j = fold ?f (enumerate (Suc k) xs) (m(k \<mapsto> x)) j"
    by (simp del: fun_upd_apply)
  show ?case
    unfolding step Cons.IH
    by (cases "j = k") (auto simp: nth_Cons' Suc_diff_Suc not_less less_Suc_eq_le)
qed

lemma dict_loop_lookup:
  "dict_loop data j = (if j < length data then Some (data ! j) else None)"
  by (simp add: dict_loop_def dict_fold_enumerate)

lemma resample_loop_enumerate:
  assumes "\<forall>r \<in> set col. r < length data" "k + length col \<le> length surr_ser"
  shows "\<exists>s'. resample_loop (dict_loop data) (enumerate k col) surr_ser = Inr s' \<and>
           length s' = length surr_ser \<and>
           (\<forall>j. s' ! j = (if k \<le> j \<and> j < k + length col then data ! (col ! (j - k)) else surr_ser ! j))"
  using assms
proof (induction col arbitrary: k surr_ser)
  case Nil
  then show ?case by simp
next
  case (Cons r col)
  let ?s1 = "surr_ser[k := data ! r]"
  have r: "r < length data" and k: "k < length surr_ser" using Cons.prems by simp_all
  have "\<forall>r \<in> set col. r < length data" "Suc k + length col \<le> length ?s1"
    using Cons.prems by simp_all
  from Cons.IH[OF this] obtain s' where
    run: "resample_loop (dict_loop data) (enumerate (Suc k) col) ?s1 = Inr s'" and
    len: "length s' = length ?s1" and
    c: "\<forall>j. s' ! j = (if Suc k \<le> j \<and> j < Suc k + length col then data ! (col ! (j - Suc k)) else ?s1 ! j)"
    by blast
  have run': "resample_loop (dict_loop data) (enumerate k (r # col)) surr_ser = Inr s'"
    using run r k by (simp add: dict_loop_lookup)
  have "\<forall>j. s' ! j = (if k \<le> j \<and> j < k + length (r # col) then data ! ((r # col) ! (j - k)) else surr_ser ! j)"
  proof
    fix j
    show "s' ! j = (if k \<le> j \<and> j < k + length (r # col) then data ! ((r # col) ! (j - k)) else surr_ser ! j)"
    proof (cases "j = k")
      case True
      then show ?thesis using c k by simp
    next
      case False
      then show ?thesis using c by (auto simp: nth_Cons' Suc_diff_Suc not_less less_Suc_eq_le)
    qed
  qed
  then show ?case using run' len by simp
qed

lemma resample_loop_column:
  assumes "\<forall>r \<in> set col. r < length data" "length col = length surr_ser"
  shows "resample_loop (dict_loop data) (enumerate 0 col) surr_ser = Inr (map (\<lambda>r. data ! r) col)"
proof -
  from assms have "0 + length col \<le> length surr_ser" by simp
  from resample_loop_enumerate[OF assms(1) this] obtain s' where
    run: "resample_loop (dict_loop data) (enumerate 0 col) surr_ser = Inr s'" and
    len: "length s' = length surr_ser" and
    c: "\<forall>j. s' ! j = (if 0 \<le> j \<and> j < 0 + length col then data ! (col ! (j - 0)) else surr_ser ! j)"
    by blast
  have "s' = map (\<lambda>r. data ! r) col"
    using len assms(2) c by (intro nth_equalityI) simp_all
  then show ?thesis using run by simp
qed

lemma column_ok:
  assumes "draws_ok ran_el n_els n" "i < n"
  shows "column ran_el i = Inr (map (\<lambda>row. row ! i) ran_el)"
    and "\<forall>r \<in> set (map (\<lambda>row. row ! i) ran_el). r < n_els"
    and "length (map (\<lambda>row. row ! i) ran_el) = n_els"
  using assms by (auto simp: column_def draws_ok_def)

text \<open>The loop writes the statistic of resample \<open>i\<close> at position \<open>i\<close> and never fails.\<close>

lemma boots_loop_indices:
  assumes "draws_ok ran_el (length data) n" "\<forall>i \<in> set ixs. i < n"
      and "length surr_ser = length data" "length surr_quan = n"
  shows "\<exists>q. boots_loop func (dict_loop data) ran_el ixs surr_ser surr_quan = Inr q \<and>
           length q = n \<and>
           (\<forall>j. q ! j = (if j \<in> set ixs then func (map (\<lambda>row. data ! (row ! j)) ran_el)
                          else surr_quan ! j))"
  using assms(2-)
proof (induction ixs arbitrary: surr_ser surr_quan)
  case Nil
  then show ?case by simp
next
  case (Cons i ixs)
  let ?col = "map (\<lambda>row. row ! i) ran_el"
  let ?ser = "map (\<lambda>r. data ! r) ?col"
  let ?q1 = "surr_quan[i := func ?ser]"
  have i: "i < n" using Cons.prems(1) by simp
  note col = column_ok[OF assms(1) i]
  have res: "resample_loop (dict_loop data) (enumerate 0 ?col) surr_ser = Inr ?ser"
    using col(2,3) Cons.prems(2) by (intro resample_loop_column) simp_all
  have "\<forall>i \<in> set ixs. i < n" "length ?ser = length data" "length ?q1 = n"
    using Cons.prems col(3) by simp_all
  from Cons.IH[OF this] obtain q where
    run: "boots_loop func (dict_loop data) ran_el ixs ?ser ?q1 = Inr q" and len: "length q = n" and
    c: "\<forall>j. q ! j = (if j \<in> set ixs then func (map (\<lambda>row. data ! (row ! j)) ran_el) else ?q1 ! j)"
    by blast
  have run': "boots_loop func (dict_loop data) ran_el (i # ixs) surr_ser surr_quan = Inr q"
    using col(1) res run i Cons.prems(3) by simp
  have "\<forall>j. q ! j = (if j \<in> set (i # ixs) then func (map (\<lambda>row. data ! (row ! j)) ran_el)
                       else surr_quan ! j)"
    using c i Cons.prems(3) by (auto simp: nth_list_update comp_def)
  then show ?case using run' len by simp
qed

lemma boots_loop_all:
  assumes "draws_ok ran_el (length data) n"
  shows "boots_loop func (dict_loop data) ran_el [0..<n] (np_empty (length data)) (np_empty n) =
           Inr (map (\<lambda>i. func (map (\<lambda>row. data ! (row ! i)) ran_el)) [0..<n])"
proof -
  have "\<forall>i \<in> set [0..<n]. i < n" "length (np_empty (length data)) = length data" "length (np_empty n) = n"
    by (simp_all add: np_empty_def)
  from boots_loop_indices[OF assms this, of func] obtain q where
    run: "boots_loop func (dict_loop data) ran_el [0..<n] (np_empty (length data)) (np_empty n) = Inr q" and
    len: "length q = n" and
    c: "\<forall>j. q ! j = (if j \<in> set [0..<n] then func (map (\<lambda>row. data ! (row ! j)) ran_el)
                       else np_empty n ! j)"
    by blast
  have "q = map (\<lambda>i. func (map (\<lambda>row. data ! (row ! i)) ran_el)) [0..<n]"
    using len c by (intro nth_equalityI) simp_all
  then show ?thesis using run by simp
qed

text \<open>
  C3. For a confidence level strictly between 0 and 100, at least one resample and
  more than two data, and for every array of drawn indices that \<^verbatim>\<open>randint\<close> may return:
  the low percentile is (100 - level)/2 and the high one level + low; the surrogate
  \<open>i\<close> is the statistic of the data read at the \<open>n\<close> indices of draw \<open>i\<close>; the result
  is the pair of the linear-interpolated percentiles of the surrogates, at the ranks
  p/100 * (n - 1), between the values at the floor and at the ceiling of the rank.
\<close>

theorem boots_ci_percentile_interval:
  assumes "0 < inter'" "inter' < 100" "1 \<le> n" "2 < length data"
      and "draws_ok ran_el (length data) n"
  shows "\<exists>surr_quan perc_low perc_high.
           perc_low = (100 - inter') / 2 \<and> perc_high = inter' + perc_low \<and>
           surr_quan = map (\<lambda>i. func (map (\<lambda>row. data ! (row ! i)) ran_el)) [0..<n] \<and>
           0 \<le> perc_low / 100 * (of_nat n - 1) \<and> perc_high / 100 * (of_nat n - 1) \<le> of_nat n - 1 \<and>
           boots_ci ran_el data n inter' func =
             Inr (interpolate (sort surr_quan) (perc_low / 100 * (of_nat n - 1)),
                  interpolate (sort surr_quan) (perc_high / 100 * (of_nat n - 1)))"
proof -
  let ?lo = "(100 - inter') / 2"
  let ?hi = "inter' + ?lo"
  let ?q = "map (\<lambda>i. func (map (\<lambda>row. data ! (row ! i)) ran_el)) [0..<n]"
  have q: "?q \<noteq> []" "length ?q = n" using assms(3) by auto
  have lo: "0 \<le> ?lo" "?lo \<le> 100"
    using assms(1,2) by simp_all
  have hi: "0 \<le> ?hi" "?hi \<le> 100"
    using assms(1,2) by (simp_all add: field_simps)
  obtain a where a: "percentile ?q ?lo = Some a" using percentile_defined[OF q(1) lo] by blast
  obtain b where b: "percentile ?q ?hi = Some b" using percentile_defined[OF q(1) hi] by blast
  note pa = percentile_Some[OF a] and pb = percentile_Some[OF b]
  have p: "prctile ?q [?lo, ?hi] = Some [a, b]" using a b by (simp add: prctile_def)
  have run: "boots_ci ran_el data n inter' func = Inr (a, b)"
    using assms(4) boots_loop_all[OF assms(5), of func] p
    by (simp add: boots_ci_def Let_def)
  have "(of_nat 1 :: rat) \<le> of_nat n" using assms(3) by (rule of_nat_mono)
  then have m: "(0::rat) \<le> of_nat n - 1" by simp
  have r0: "0 \<le> ?lo / 100 * (of_nat n - 1)" using lo(1) m by simp
  have "?hi / 100 \<le> 1" using hi(2) by simp
  then have "?hi / 100 * (of_nat n - 1) \<le> 1 * (of_nat n - 1)" using m by (rule mult_right_mono)
  then have r1: "?hi / 100 * (of_nat n - 1) \<le> of_nat n - 1" by simp
  show ?thesis
    using run r0 r1 pa(3) pb(3) unfolding q(2) by (intro exI[of _ ?q] exI[of _ ?lo] exI[of _ ?hi]) simp
qed

theorem boots_ci_percentile_interval_witness:
  "(0::rat) < 50 \<and> (50::rat) < 100 \<and> (1::nat) \<le> 2 \<and> 2 < length [1, 2, 3 :: rat] \<and>
   draws_ok [[0, 2], [0, 2], [1, 2]] (length [1, 2, 3 :: rat]) 2 \<and>
   boots_ci [[0, 2], [0, 2], [1, 2]] [1, 2, 3] 2 50 sum_list = Inr (21 / 4, 31 / 4) \<and>
   (\<exists>surr_quan perc_low perc_high.
      perc_low = (100 - 50) / 2 \<and> perc_high = 50 + perc_low \<and>
      surr_quan = map (\<lambda>i. sum_list (map (\<lambda>row. [1, 2, 3] ! (row ! i)) [[0, 2], [0, 2], [1, 2]])) [0..<2] \<and>
      0 \<le> perc_low / 100 * (of_nat 2 - 1) \<and> perc_high / 100 * (of_nat 2 - 1) \<le> of_nat 2 - 1 \<and>
      boots_ci [[0, 2], [0, 2], [1, 2]] [1, 2, 3] 2 50 sum_list =
        Inr (interpolate (sort surr_quan) (perc_low / 100 * (of_nat 2 - 1)),
             interpolate (sort surr_quan) (perc_high / 100 * (of_nat 2 - 1))))"
proof -
  have h: "(0::rat) < 50" "(50::rat) < 100" "(1::nat) \<le> 2" "2 < length [1, 2, 3 :: rat]"
    "draws_ok [[0, 2], [0, 2], [1, 2]] (length [1, 2, 3 :: rat]) 2"
    by (simp_all add: draws_ok_def)
  have v: "boots_ci [[0, 2], [0, 2], [1, 2]] [1, 2, 3] 2 50 sum_list = Inr (21 / 4, 31 / 4)"
    by code_simp
  show ?thesis
    using h v boots_ci_percentile_interval [OF h, of sum_list] by blast
qed

text \<open>
  C4, what the code does. With 0, 1 or 2 data, whatever the other arguments,
  \<^verbatim>\<open>boots_ci\<close> returns no confidence interval: line 298 assigns the single float
  \<^verbatim>\<open>np.nan\<close> to two names, and the call ends in Python's TypeError. The call signals
  no error of insufficient data, and it does not hand back the two NaNs that the
  line was written for.
\<close>

theorem boots_ci_short_data:
  assumes "length data \<le> 2"
  shows "boots_ci ran_el data n inter' func = Inl TypeError"
  using assms by (simp add: boots_ci_def Let_def)

theorem boots_ci_short_data_witness:
  "length [4, 7 :: rat] \<le> 2 \<and>
   boots_ci [[0, 1], [1, 1]] [4, 7] 2 95 sum_list = Inl TypeError"
proof -
  have h: "length [4, 7 :: rat] \<le> 2"
    by simp
  show ?thesis
    using h boots_ci_short_data [OF h] by blast
qed

end
